theory Spec2Isabelle
  imports Main "HOL-Library.Word"
begin

unbundle bit_operations_syntax

section \<open>Bytes, strings and 32-bit integers on the wire\<close>

text \<open>
  The server keeps its buffers in \<^verbatim>\<open>std::vector<uint8_t>\<close> and its strings in
  \<^verbatim>\<open>std::string\<close>; both are sequences of 8-bit bytes and the code moves between them
  with \<^verbatim>\<open>reinterpret_cast\<close>, so both are byte lists here. Sizes (\<^verbatim>\<open>size_t\<close>) are natural
  numbers; the length fields on the wire are \<^verbatim>\<open>uint32_t\<close> and are 32-bit words, so that
  the unsigned arithmetic the code does on them (\<^verbatim>\<open>4u + len\<close>) wraps as it does in C++.
\<close>

type_synonym byte = "8 word"
type_synonym bytes = "byte list"
type_synonym u32 = "32 word"

text \<open>
  Every integer on the wire is copied with \<^verbatim>\<open>std::memcpy\<close> between a \<^verbatim>\<open>uint32_t\<close> and four
  bytes, in the byte order of the host. The byte order is a parameter of the model.
\<close>

datatype endian = Little | Big

text \<open>\<^verbatim>\<open>std::memcpy(raw, &v, 4)\<close>: the four bytes of a \<^verbatim>\<open>uint32_t\<close> in memory.\<close>

definition u32_bytes :: "endian \<Rightarrow> u32 \<Rightarrow> bytes" where
  "u32_bytes e v =
     (let le = [ucast v, ucast (drop_bit 8 v), ucast (drop_bit 16 v), ucast (drop_bit 24 v)]
      in case e of Little \<Rightarrow> le | Big \<Rightarrow> rev le)"

text \<open>\<^verbatim>\<open>std::memcpy(&out, p, 4)\<close>: the \<^verbatim>\<open>uint32_t\<close> held by the first four bytes at \<^verbatim>\<open>p\<close>.
  Every call site has checked that four bytes are there.\<close>

definition le_u32 :: "bytes \<Rightarrow> u32" where
  "le_u32 bs =
     (ucast (bs ! 0)) OR push_bit 8 (ucast (bs ! 1)) OR
     push_bit 16 (ucast (bs ! 2)) OR push_bit 24 (ucast (bs ! 3))"

definition bytes_u32 :: "endian \<Rightarrow> bytes \<Rightarrow> u32" where
  "bytes_u32 e bs = (case e of Little \<Rightarrow> le_u32 (take 4 bs) | Big \<Rightarrow> le_u32 (rev (take 4 bs)))"

text \<open>A string literal of the source, as the bytes of its characters.\<close>

definition lit :: "string \<Rightarrow> bytes" where
  "lit s = map of_char s"

text \<open>\<^verbatim>\<open>k_max_msg\<close> and the response status codes of utils.h. Success is the literal
  \<^verbatim>\<open>0\<close> in the source; \<open>RES_OK\<close> names it in the statements.\<close>

definition k_max_msg :: nat where
  "k_max_msg = 4096"

definition RES_OK :: u32 where
  "RES_OK = 0"

definition RES_NX :: u32 where
  "RES_NX = 1"

definition RES_ERR :: u32 where
  "RES_ERR = - 1"

section \<open>Buffer helpers (asyncio.cpp, anonymous namespace)\<close>

definition bufConsume :: "bytes \<Rightarrow> nat \<Rightarrow> bytes" where
  "bufConsume buf n =
     (if n = 0 then buf
      else if n \<ge> length buf then []
      else drop n buf)"

definition bufAppend :: "bytes \<Rightarrow> bytes \<Rightarrow> bytes" where
  "bufAppend buf dat = (if length dat = 0 then buf else buf @ dat)"

text \<open>
  \<^verbatim>\<open>readU32\<close> and \<^verbatim>\<open>readStr\<close> advance a cursor \<^verbatim>\<open>cur\<close> towards \<^verbatim>\<open>end\<close>. The cursor is
  modelled by the bytes that remain between \<^verbatim>\<open>cur\<close> and \<^verbatim>\<open>end\<close>; a successful read returns
  the value and the remaining bytes, a failed one (\<^verbatim>\<open>return false\<close>) is \<open>None\<close>.
\<close>

definition readU32 :: "endian \<Rightarrow> bytes \<Rightarrow> (u32 \<times> bytes) option" where
  "readU32 e cur =
     (if 4 > length cur then None
      else Some (bytes_u32 e cur, drop 4 cur))"

definition readStr :: "bytes \<Rightarrow> nat \<Rightarrow> (bytes \<times> bytes) option" where
  "readStr cur n =
     (if n > length cur then None
      else Some (take n cur, drop n cur))"

section \<open>Request parsing (Connection::parseRequest)\<close>

text \<open>The \<^verbatim>\<open>for\<close> loop of \<^verbatim>\<open>parseRequest\<close>: \<open>n\<close> strings are still to be read from \<open>cur\<close>,
  \<open>out\<close> holds the strings read so far.\<close>

fun parseStrings :: "endian \<Rightarrow> nat \<Rightarrow> bytes \<Rightarrow> bytes list \<Rightarrow> (bytes \<times> bytes list) option" where
  "parseStrings e 0 cur out = Some (cur, out)"
| "parseStrings e (Suc n) cur out =
     (case readU32 e cur of
        None \<Rightarrow> None
      | Some (slen, cur1) \<Rightarrow>
          (case readStr cur1 (unat slen) of
             None \<Rightarrow> None
           | Some (s, cur2) \<Rightarrow> parseStrings e n cur2 (out @ [s])))"

text \<open>\<^verbatim>\<open>parseRequest(data, size, out)\<close> on the bytes \<open>[data, data + size)\<close>; \<open>None\<close> is
  \<^verbatim>\<open>return false\<close>, \<open>Some out\<close> is \<^verbatim>\<open>return true\<close> with the strings in \<^verbatim>\<open>out\<close>.\<close>

definition parseRequest :: "endian \<Rightarrow> bytes \<Rightarrow> bytes list option" where
  "parseRequest e dat =
     (case readU32 e dat of
        None \<Rightarrow> None
      | Some (nstr, cur) \<Rightarrow>
          if unat nstr > k_max_msg then None
          else (case parseStrings e (unat nstr) cur [] of
                  None \<Rightarrow> None
                | Some (cur', out) \<Rightarrow> if cur' \<noteq> [] then None else Some out))"

section \<open>The store (KVStore)\<close>

text \<open>
  \<^verbatim>\<open>KVStore\<close> holds a pointer \<^verbatim>\<open>impl_\<close> to an \<^verbatim>\<open>unordered_map\<close>, null until the first call
  of any of its three operations, each of which allocates an empty map when it finds the
  pointer null (also \<^verbatim>\<open>get\<close>, through a \<^verbatim>\<open>const_cast\<close>).
\<close>

record KVStore =
  impl :: "(bytes \<rightharpoonup> bytes) option"

definition KVStore_new :: KVStore where
  "KVStore_new = \<lparr>impl = None\<rparr>"

definition KVStore_data :: "KVStore \<Rightarrow> (bytes \<rightharpoonup> bytes)" where
  "KVStore_data s = (case impl s of None \<Rightarrow> Map.empty | Some m \<Rightarrow> m)"

text \<open>\<^verbatim>\<open>get\<close> returns the store (its pointer now set) and the value found, if any.\<close>

definition KVStore_get :: "KVStore \<Rightarrow> bytes \<Rightarrow> KVStore \<times> bytes option" where
  "KVStore_get s key =
     (let m = KVStore_data s
      in (s\<lparr>impl := Some m\<rparr>, m key))"

definition KVStore_set :: "KVStore \<Rightarrow> bytes \<Rightarrow> bytes \<Rightarrow> KVStore" where
  "KVStore_set s key val =
     (let m = KVStore_data s
      in s\<lparr>impl := Some (m(key \<mapsto> val))\<rparr>)"

text \<open>\<^verbatim>\<open>del\<close> returns the store and whether \<^verbatim>\<open>erase\<close> removed an entry.\<close>

definition KVStore_del :: "KVStore \<Rightarrow> bytes \<Rightarrow> KVStore \<times> bool" where
  "KVStore_del s key =
     (let m = KVStore_data s
      in (s\<lparr>impl := Some (m(key := None))\<rparr>, m key \<noteq> None))"

section \<open>Connections\<close>

record Connection =
  fd :: int
  want_read :: bool
  want_write :: bool
  want_close :: bool
  incoming :: bytes
  outgoing :: bytes

definition Connection_new :: "int \<Rightarrow> Connection" where
  "Connection_new f =
     \<lparr>fd = f, want_read = True, want_write = False, want_close = False,
      incoming = [], outgoing = []\<rparr>"

definition appendOutgoing :: "Connection \<Rightarrow> bytes \<Rightarrow> Connection" where
  "appendOutgoing c dat = c\<lparr>outgoing := bufAppend (outgoing c) dat\<rparr>"

text \<open>\<^verbatim>\<open>resp_len\<close> is computed in \<^verbatim>\<open>uint32_t\<close>: the size is cast, the sum wraps.\<close>

definition appendResponse :: "endian \<Rightarrow> Connection \<Rightarrow> u32 \<Rightarrow> bytes \<Rightarrow> Connection" where
  "appendResponse e c status dat =
     (let resp_len = 4 + (of_nat (length dat) :: u32);
          c1 = appendOutgoing c (u32_bytes e resp_len);
          c2 = appendOutgoing c1 (u32_bytes e status)
      in if dat \<noteq> [] then appendOutgoing c2 dat else c2)"

text \<open>The command dispatch of \<^verbatim>\<open>tryOneRequest\<close> (the block "Execute command against
  store"): the store afterwards, the status and the payload of the response.\<close>

definition executeCommand :: "KVStore \<Rightarrow> bytes list \<Rightarrow> KVStore \<times> u32 \<times> bytes" where
  "executeCommand store cmd =
     (if length cmd = 2 \<and> cmd ! 0 = lit ''get'' then
        (case KVStore_get store (cmd ! 1) of
           (store', Some val) \<Rightarrow> (store', 0, val)
         | (store', None) \<Rightarrow> (store', RES_NX, []))
      else if length cmd = 3 \<and> cmd ! 0 = lit ''set'' then
        (KVStore_set store (cmd ! 1) (cmd ! 2), 0, [])
      else if length cmd = 2 \<and> cmd ! 0 = lit ''del'' then
        (fst (KVStore_del store (cmd ! 1)), 0, [])
      else (store, RES_ERR, []))"

text \<open>\<^verbatim>\<open>tryOneRequest\<close>: its boolean result, the store and the connection afterwards.\<close>

definition tryOneRequest :: "endian \<Rightarrow> KVStore \<Rightarrow> Connection \<Rightarrow> bool \<times> KVStore \<times> Connection" where
  "tryOneRequest e store c =
     (if length (incoming c) < 4 then (False, store, c)
      else
        let len = bytes_u32 e (incoming c) in
        if unat len > k_max_msg then (False, store, c\<lparr>want_close := True\<rparr>)
        else if length (incoming c) < unat (4 + len) then (False, store, c)
        else
          (case parseRequest e (take (unat len) (drop 4 (incoming c))) of
             None \<Rightarrow>
               (False, store,
                c\<lparr>want_close := True, incoming := bufConsume (incoming c) (unat (4 + len))\<rparr>)
           | Some cmd \<Rightarrow>
               (case executeCommand store cmd of
                  (store', status, dat) \<Rightarrow>
                    let c1 = appendResponse e c status dat
                    in (True, store', c1\<lparr>incoming := bufConsume (incoming c1) (unat (4 + len))\<rparr>))))"

section \<open>The client's encoder (client.cpp)\<close>

text \<open>The first loop of \<^verbatim>\<open>build_payload\<close>, the size estimate: \<open>False\<close> where it returns false.\<close>

fun estimate_ok :: "nat \<Rightarrow> bytes list \<Rightarrow> bool" where
  "estimate_ok estimated [] = True"
| "estimate_ok estimated (s # ss) =
     (if length s > k_max_msg then False
      else if estimated + (4 + length s) > k_max_msg then False
      else estimate_ok (estimated + (4 + length s)) ss)"

text \<open>The bytes the second part of \<^verbatim>\<open>build_payload\<close> writes: the count, then each string
  behind its length, every integer cast to \<^verbatim>\<open>uint32_t\<close>.\<close>

definition payload_bytes :: "endian \<Rightarrow> bytes list \<Rightarrow> bytes" where
  "payload_bytes e cmd =
     u32_bytes e (of_nat (length cmd)) @
     concat (map (\<lambda>s. u32_bytes e (of_nat (length s)) @ s) cmd)"

definition build_payload :: "endian \<Rightarrow> bytes list \<Rightarrow> bytes option" where
  "build_payload e cmd = (if estimate_ok 4 cmd then Some (payload_bytes e cmd) else None)"

text \<open>The request \<^verbatim>\<open>send_command\<close> writes: the payload behind its 4-byte length,
  or nothing when the payload cannot be built or is too long.\<close>

definition request_frame :: "endian \<Rightarrow> bytes \<Rightarrow> bytes" where
  "request_frame e payload = u32_bytes e (of_nat (length payload)) @ payload"

definition send_command_request :: "endian \<Rightarrow> bytes list \<Rightarrow> bytes option" where
  "send_command_request e cmd =
     (case build_payload e cmd of
        None \<Rightarrow> None
      | Some payload \<Rightarrow>
          if unat (of_nat (length payload) :: u32) > k_max_msg then None
          else Some (request_frame e payload))"

text \<open>The check \<^verbatim>\<open>send_command\<close> makes on the length field of a response:
  \<open>False\<close> where it reports "Invalid response length".\<close>

definition response_length_ok :: "u32 \<Rightarrow> bool" where
  "response_length_ok rlen = (\<not> (unat rlen > k_max_msg \<or> unat rlen < 4))"

section \<open>The readable and writable handlers\<close>

text \<open>The loop \<^verbatim>\<open>while (tryOneRequest(store)) {}\<close> of \<^verbatim>\<open>handleReadable\<close>. Every request
  that is served leaves the incoming buffer shorter, so the loop ends.\<close>

function processRequests :: "endian \<Rightarrow> KVStore \<Rightarrow> Connection \<Rightarrow> KVStore \<times> Connection" where
  "processRequests e store c =
     (case tryOneRequest e store c of
        (ok, store', c') \<Rightarrow> if ok then processRequests e store' c' else (store', c'))"
  by pat_completeness auto
termination
  apply (relation "measure (\<lambda>(e, store, c). length (incoming c))")
  subgoal by simp
  subgoal premises p for e store c ok y store' c'
  proof -
    have t: "tryOneRequest e store c = (True, store', c')"
      using p by (metis (full_types))
    define len where "len = bytes_u32 e (incoming c)"
    from t have small: "unat len \<le> k_max_msg" and big: "unat (4 + len) \<le> length (incoming c)"
      and inc: "incoming c' = bufConsume (incoming c) (unat (4 + len))"
      by (auto simp: tryOneRequest_def Let_def len_def appendResponse_def appendOutgoing_def
          split: if_splits option.splits prod.splits)
    have "unat (4 + len) = 4 + unat len"
      using small by (simp add: unat_word_ariths k_max_msg_def)
    then have "length (incoming c') < length (incoming c)"
      using big by (auto simp: inc bufConsume_def)
    then show ?thesis
      by simp
  qed
  done

text \<open>
  What \<^verbatim>\<open>::read\<close> and \<^verbatim>\<open>::write\<close> return is given by the environment. \<open>ReadError eagain\<close>
  is \<^verbatim>\<open>rv < 0\<close>, with \<open>eagain\<close> telling whether \<^verbatim>\<open>errno == EAGAIN\<close>; \<open>ReadOk dat\<close> is
  \<^verbatim>\<open>rv >= 0\<close> with the \<^verbatim>\<open>rv\<close> bytes placed in \<^verbatim>\<open>buf\<close> (none when the peer has closed).
  \<open>WriteError eagain\<close> is \<^verbatim>\<open>rv < 0\<close>, \<open>WriteOk rv\<close> is the number of bytes written.
\<close>

datatype read_result = ReadError bool | ReadOk bytes

datatype write_result = WriteError bool | WriteOk nat

text \<open>\<^verbatim>\<open>handleWritable\<close>: the connection afterwards, and the bytes the call of \<^verbatim>\<open>::write\<close>
  has handed to the socket (the first \<^verbatim>\<open>rv\<close> bytes of the outgoing buffer).\<close>

definition handleWritable :: "write_result \<Rightarrow> Connection \<Rightarrow> Connection \<times> bytes" where
  "handleWritable wr c =
     (if outgoing c = [] then (c\<lparr>want_write := False, want_read := True\<rparr>, [])
      else
        (case wr of
           WriteError eagain \<Rightarrow>
             if eagain then (c, []) else (c\<lparr>want_close := True\<rparr>, [])
         | WriteOk rv \<Rightarrow>
             let c1 = c\<lparr>outgoing := bufConsume (outgoing c) rv\<rparr>
             in (if outgoing c1 = [] then c1\<lparr>want_write := False, want_read := True\<rparr> else c1,
                 take rv (outgoing c))))"

text \<open>\<^verbatim>\<open>handleReadable\<close>: the store and the connection afterwards, and the bytes written
  to the socket by the write it attempts at once when there is output.\<close>

definition handleReadable ::
  "endian \<Rightarrow> KVStore \<Rightarrow> read_result \<Rightarrow> write_result \<Rightarrow> Connection \<Rightarrow> KVStore \<times> Connection \<times> bytes" where
  "handleReadable e store rd wr c =
     (case rd of
        ReadError eagain \<Rightarrow>
          if eagain then (store, c, []) else (store, c\<lparr>want_close := True\<rparr>, [])
      | ReadOk dat \<Rightarrow>
          if length dat = 0 then
            (if incoming c \<noteq> [] then (store, c\<lparr>want_close := True\<rparr>, [])
             else (store, c\<lparr>want_close := True\<rparr>, []))
          else
            (case processRequests e store (c\<lparr>incoming := bufAppend (incoming c) dat\<rparr>) of
               (store', c2) \<Rightarrow>
                 if outgoing c2 \<noteq> [] then
                   (case handleWritable wr (c2\<lparr>want_read := False, want_write := True\<rparr>) of
                      (c4, sent) \<Rightarrow> (store', c4, sent))
                 else (store', c2, [])))"

declare processRequests.simps [simp del]


section \<open>Notions used in the statements\<close>

text \<open>The bytes of one response on the wire: the length field, the status, the payload.\<close>

definition response_frame :: "endian \<Rightarrow> u32 \<Rightarrow> bytes \<Rightarrow> bytes" where
  "response_frame e status dat = u32_bytes e (4 + of_nat (length dat)) @ u32_bytes e status @ dat"

text \<open>The interest flags for reading and for writing are not both set.\<close>

definition flags_exclusive :: "Connection \<Rightarrow> bool" where
  "flags_exclusive c = (\<not> (want_read c \<and> want_write c))"

text \<open>A connection whose incoming buffer starts with the length 5001 (little-endian),
  followed by three more bytes.\<close>

definition oversized_example :: Connection where
  "oversized_example = (Connection_new 5)\<lparr>incoming := [137, 19, 0, 0, 1, 2, 3]\<rparr>"

text \<open>One string of a request body: its length as a \<^verbatim>\<open>uint32_t\<close>, then its bytes.\<close>

definition encode_string :: "endian \<Rightarrow> bytes \<Rightarrow> bytes" where
  "encode_string e s = u32_bytes e (of_nat (length s)) @ s"

text \<open>A body is well formed when it is exactly a string count followed by exactly that
  many length-prefixed strings and nothing else, the count and the lengths being
  what their 32-bit fields say.\<close>

definition well_formed_body :: "endian \<Rightarrow> bytes \<Rightarrow> bool" where
  "well_formed_body e body =
     (\<exists>cmd. length cmd < 2 ^ 32 \<and> (\<forall>s \<in> set cmd. length s < 2 ^ 32) \<and> body = payload_bytes e cmd)"

text \<open>A connection whose incoming buffer holds a complete frame of length 5, its body a
  string count of zero followed by one trailing byte, and two bytes of a next frame.\<close>

definition malformed_example :: Connection where
  "malformed_example = (Connection_new 5)\<lparr>incoming := [5, 0, 0, 0, 0, 0, 0, 0, 7, 1, 2]\<rparr>"

text \<open>A connection whose incoming buffer holds the complete request \<^verbatim>\<open>["set", "a"]\<close>
  (a wrong number of arguments), little-endian.\<close>

definition bad_arity_example :: Connection where
  "bad_arity_example =
     (Connection_new 5)\<lparr>incoming := [16, 0, 0, 0, 2, 0, 0, 0, 3, 0, 0, 0, 115, 101, 116, 1, 0, 0, 0, 97]\<rparr>"

text \<open>The responses a sequence of commands calls for: each command is dispatched on the
  store left by the one before it, and the frames of the responses are listed in the
  order of the commands.\<close>

fun run_commands :: "endian \<Rightarrow> KVStore \<Rightarrow> bytes list list \<Rightarrow> KVStore \<times> bytes list" where
  "run_commands e store [] = (store, [])"
| "run_commands e store (cmd # cmds) =
     (case executeCommand store cmd of
        (store', status, dat) \<Rightarrow>
          (case run_commands e store' cmds of
             (store'', rs) \<Rightarrow> (store'', response_frame e status dat # rs)))"

text \<open>Two requests as the client frames them, one behind the other:
  \<^verbatim>\<open>["set", "a", "b"]\<close> and \<^verbatim>\<open>["get", "a"]\<close> (little-endian).\<close>

definition two_requests_example :: bytes where
  "two_requests_example =
     [21, 0, 0, 0, 3, 0, 0, 0, 3, 0, 0, 0, 115, 101, 116, 1, 0, 0, 0, 97, 1, 0, 0, 0, 98,
      16, 0, 0, 0, 2, 0, 0, 0, 3, 0, 0, 0, 103, 101, 116, 1, 0, 0, 0, 97]"

text \<open>The stores the server can be in: the store \<^verbatim>\<open>main\<close> constructs, and every store that
  \<open>tryOneRequest\<close>, the only code that calls the store, leaves behind, for any
  connection.\<close>

inductive server_store :: "endian \<Rightarrow> KVStore \<Rightarrow> bool" for e :: endian where
  server_store_new: "server_store e KVStore_new"
| server_store_step:
    "server_store e store \<Longrightarrow> tryOneRequest e store c = (ok, store', c') \<Longrightarrow> server_store e store'"

text \<open>Every value in the store, with the four bytes of a status, fits \<open>k_max_msg\<close>.\<close>

definition values_bounded :: "KVStore \<Rightarrow> bool" where
  "values_bounded store = (\<forall>k v. KVStore_data store k = Some v \<longrightarrow> length v + 4 \<le> k_max_msg)"

text \<open>Two connections, one holding the request \<^verbatim>\<open>["set", "a", "b"]\<close>, the other the request
  \<^verbatim>\<open>["get", "a"]\<close> (little-endian).\<close>

definition set_request_example :: Connection where
  "set_request_example =
     (Connection_new 5)\<lparr>incoming :=
        [21, 0, 0, 0, 3, 0, 0, 0, 3, 0, 0, 0, 115, 101, 116, 1, 0, 0, 0, 97, 1, 0, 0, 0, 98]\<rparr>"

definition get_request_example :: Connection where
  "get_request_example =
     (Connection_new 6)\<lparr>incoming :=
        [16, 0, 0, 0, 2, 0, 0, 0, 3, 0, 0, 0, 103, 101, 116, 1, 0, 0, 0, 97]\<rparr>"


section \<open>Basic facts about the buffers and the request loop\<close>

lemma length_u32_bytes [simp]: "length (u32_bytes e v) = 4"
  by (cases e) (simp_all add: u32_bytes_def)

lemma u32_bytes_not_Nil [simp]: "u32_bytes e v \<noteq> []"
  using length_u32_bytes [of e v] by (metis length_0_conv zero_neq_numeral)

lemma bufConsume_drop: "bufConsume buf n = drop n buf"
  by (simp add: bufConsume_def)

lemma bufAppend_append: "bufAppend buf dat = buf @ dat"
  by (simp add: bufAppend_def)

lemma appendResponse_eq:
  "appendResponse e c status dat = c\<lparr>outgoing := outgoing c @ response_frame e status dat\<rparr>"
  by (simp add: appendResponse_def appendOutgoing_def bufAppend_append response_frame_def Let_def)

lemma unat_4_plus: "unat (len :: u32) \<le> k_max_msg \<Longrightarrow> unat (4 + len) = 4 + unat len"
  by (simp add: unat_word_ariths k_max_msg_def)

lemma tryOneRequest_oversized:
  assumes "4 \<le> length (incoming c)" and "k_max_msg < unat (bytes_u32 e (incoming c))"
  shows "tryOneRequest e store c = (False, store, c\<lparr>want_close := True\<rparr>)"
  using assms by (simp add: tryOneRequest_def Let_def)

lemma tryOneRequest_malformed:
  assumes "4 \<le> length (incoming c)" and "unat (bytes_u32 e (incoming c)) \<le> k_max_msg"
    and "4 + unat (bytes_u32 e (incoming c)) \<le> length (incoming c)"
    and "parseRequest e (take (unat (bytes_u32 e (incoming c))) (drop 4 (incoming c))) = None"
  shows "tryOneRequest e store c =
    (False, store, c\<lparr>want_close := True,
       incoming := drop (4 + unat (bytes_u32 e (incoming c))) (incoming c)\<rparr>)"
  using assms by (simp add: tryOneRequest_def Let_def unat_4_plus bufConsume_drop)

lemma tryOneRequest_served:
  assumes "4 \<le> length (incoming c)" and "unat (bytes_u32 e (incoming c)) \<le> k_max_msg"
    and "4 + unat (bytes_u32 e (incoming c)) \<le> length (incoming c)"
    and "parseRequest e (take (unat (bytes_u32 e (incoming c))) (drop 4 (incoming c))) = Some cmd"
    and "executeCommand store cmd = (store', status, dat)"
  shows "tryOneRequest e store c =
    (True, store', c\<lparr>outgoing := outgoing c @ response_frame e status dat,
       incoming := drop (4 + unat (bytes_u32 e (incoming c))) (incoming c)\<rparr>)"
  using assms by (simp add: tryOneRequest_def Let_def unat_4_plus bufConsume_drop appendResponse_eq)

lemma processRequests_stop:
  "tryOneRequest e store c = (False, store', c') \<Longrightarrow> processRequests e store c = (store', c')"
  by (simp add: processRequests.simps)

lemma processRequests_step:
  "tryOneRequest e store c = (True, store', c') \<Longrightarrow>
   processRequests e store c = processRequests e store' c'"
  by (simp add: processRequests.simps)

lemma tryOneRequest_flags:
  "tryOneRequest e store c = (ok, store', c') \<Longrightarrow>
   want_read c' = want_read c \<and> want_write c' = want_write c"
  by (auto simp: tryOneRequest_def Let_def appendResponse_eq split: if_splits option.splits prod.splits)

lemma processRequests_flags:
  "want_read (snd (processRequests e store c)) = want_read c \<and>
   want_write (snd (processRequests e store c)) = want_write c"
proof (induction e store c rule: processRequests.induct)
  case (1 e store c)
  obtain ok store' c' where t: "tryOneRequest e store c = (ok, store', c')"
    by (metis prod_cases3)
  show ?case
  proof (cases ok)
    case True
    with t 1 [of ok "(store', c')" store' c', OF t [symmetric] refl True] tryOneRequest_flags [OF t]
    show ?thesis by (simp add: processRequests_step)
  next
    case False
    with t tryOneRequest_flags [OF t] show ?thesis by (simp add: processRequests_stop)
  qed
qed

lemma handleWritable_exclusive:
  "flags_exclusive c \<Longrightarrow> flags_exclusive (fst (handleWritable wr c))"
  by (auto simp: handleWritable_def flags_exclusive_def Let_def split: write_result.splits)

lemma handleReadable_exclusive:
  "flags_exclusive c \<Longrightarrow> flags_exclusive (fst (snd (handleReadable e store rd wr c)))"
proof -
  assume inv: "flags_exclusive c"
  show ?thesis
  proof (cases rd)
    case (ReadError eagain)
    with inv show ?thesis by (simp add: handleReadable_def flags_exclusive_def)
  next
    case (ReadOk dat)
    obtain store' c2 where p: "processRequests e store (c\<lparr>incoming := bufAppend (incoming c) dat\<rparr>) = (store', c2)"
      by (metis surj_pair)
    have f: "want_read c2 = want_read c \<and> want_write c2 = want_write c"
      using processRequests_flags [of e store "c\<lparr>incoming := bufAppend (incoming c) dat\<rparr>"] p by simp
    have w: "flags_exclusive (fst (handleWritable wr (c2\<lparr>want_read := False, want_write := True\<rparr>)))"
      by (rule handleWritable_exclusive) (simp add: flags_exclusive_def)
    show ?thesis
      using inv ReadOk p f w
      by (auto simp: handleReadable_def flags_exclusive_def split: prod.splits)
  qed
qed


section \<open>Encoding and parsing of requests\<close>

lemma le_u32_bytes:
  "le_u32 [ucast v, ucast (drop_bit 8 v), ucast (drop_bit 16 v), ucast (drop_bit 24 v)] = (v::u32)"
  unfolding le_u32_def
proof (rule bit_word_eqI)
  fix n assume "n < LENGTH(32)"
  then have n: "n < 32" by simp
  consider "n < 8" | "8 \<le> n" "n < 16" | "16 \<le> n" "n < 24" | "24 \<le> n" "n < 32"
    using n by linarith
  then show "bit (ucast ([ucast v, ucast (drop_bit 8 v), ucast (drop_bit 16 v), ucast (drop_bit 24 v)] ! 0 :: byte) OR
          push_bit 8 (ucast ([ucast v, ucast (drop_bit 8 v), ucast (drop_bit 16 v), ucast (drop_bit 24 v)] ! 1 :: byte)) OR
          push_bit 16 (ucast ([ucast v, ucast (drop_bit 8 v), ucast (drop_bit 16 v), ucast (drop_bit 24 v)] ! 2 :: byte)) OR
          push_bit 24 (ucast ([ucast v, ucast (drop_bit 8 v), ucast (drop_bit 16 v), ucast (drop_bit 24 v)] ! 3 :: byte)) :: u32) n = bit v n"
    by cases (auto simp: bit_simps)
qed

lemma bytes_le_u32:
  "[ucast (le_u32 [a, b, c, d]), ucast (drop_bit 8 (le_u32 [a, b, c, d])),
    ucast (drop_bit 16 (le_u32 [a, b, c, d])), ucast (drop_bit 24 (le_u32 [a, b, c, d]))] = [a, b, c, d]"
  unfolding le_u32_def
  apply simp
  apply (intro conjI; rule bit_word_eqI)
     apply (auto simp: bit_simps dest: bit_imp_le_length)
  done

lemma bytes_u32_bytes [simp]: "bytes_u32 e (u32_bytes e v @ rest) = v"
  by (cases e) (simp_all add: bytes_u32_def u32_bytes_def le_u32_bytes)

lemma u32_bytes_inv: "length bs = 4 \<Longrightarrow> u32_bytes e (bytes_u32 e bs) = bs"
proof -
  assume "length bs = 4"
  then obtain a b c d where bs: "bs = [a, b, c, d]"
    by (auto simp: numeral_eq_Suc length_Suc_conv)
  show ?thesis
    using bytes_le_u32 [of a b c d] bytes_le_u32 [of d c b a]
    by (cases e) (simp_all add: bs u32_bytes_def bytes_u32_def Let_def)
qed

lemma bytes_u32_take: "bytes_u32 e (take 4 bs) = bytes_u32 e bs"
  by (cases e) (simp_all add: bytes_u32_def)

lemma readU32_encoded [simp]: "readU32 e (u32_bytes e v @ rest) = Some (v, rest)"
  by (simp add: readU32_def)

lemma readU32_SomeD:
  "readU32 e cur = Some (v, cur1) \<Longrightarrow> cur = u32_bytes e v @ cur1"
proof -
  assume r: "readU32 e cur = Some (v, cur1)"
  then have len: "4 \<le> length cur" and v: "v = bytes_u32 e cur" and c: "cur1 = drop 4 cur"
    by (auto simp: readU32_def split: if_splits)
  have "u32_bytes e (bytes_u32 e (take 4 cur)) = take 4 cur"
    using len by (intro u32_bytes_inv) simp
  then show ?thesis
    by (simp add: v c bytes_u32_take)
qed

lemma readStr_encoded [simp]: "readStr (s @ rest) (length s) = Some (s, rest)"
  by (simp add: readStr_def)

lemma readStr_SomeD: "readStr cur n = Some (s, cur2) \<Longrightarrow> cur = s @ cur2 \<and> length s = n"
  by (auto simp: readStr_def split: if_splits)

lemma unat_of_nat_u32: "n < 2 ^ 32 \<Longrightarrow> unat (of_nat n :: u32) = n"
  by (simp add: unat_of_nat)

lemma parseStrings_encoded:
  "\<forall>s \<in> set ss. length s < 2 ^ 32 \<Longrightarrow>
   parseStrings e (length ss) (concat (map (encode_string e) ss) @ rest) out = Some (rest, out @ ss)"
proof (induction ss arbitrary: out)
  case Nil
  then show ?case by simp
next
  case (Cons s ss)
  then show ?case
    by (simp add: encode_string_def unat_of_nat_u32)
qed

lemma parseStrings_SomeD:
  "parseStrings e n cur out = Some (rest, out') \<Longrightarrow>
   \<exists>ss. out' = out @ ss \<and> length ss = n \<and> cur = concat (map (encode_string e) ss) @ rest"
proof (induction n arbitrary: cur out)
  case 0
  then show ?case by simp
next
  case (Suc n)
  from Suc.prems obtain slen cur1 s cur2 where
    r1: "readU32 e cur = Some (slen, cur1)" and r2: "readStr cur1 (unat slen) = Some (s, cur2)"
    and rec: "parseStrings e n cur2 (out @ [s]) = Some (rest, out')"
    by (auto split: option.splits)
  from Suc.IH [OF rec] obtain ss where
    ss: "out' = (out @ [s]) @ ss" "length ss = n" "cur2 = concat (map (encode_string e) ss) @ rest"
    by blast
  have s: "cur1 = s @ cur2" "length s = unat slen"
    using readStr_SomeD [OF r2] by simp_all
  have "cur = encode_string e s @ cur2"
    using readU32_SomeD [OF r1] s by (simp add: encode_string_def)
  with ss show ?case
    by (intro exI [of _ "s # ss"]) simp
qed

lemma payload_bytes_alt:
  "payload_bytes e cmd = u32_bytes e (of_nat (length cmd)) @ concat (map (encode_string e) cmd)"
  by (simp add: payload_bytes_def encode_string_def [abs_def])


lemma length_encoded_strings:
  "length (concat (map (encode_string e) ss)) = sum_list (map (\<lambda>s. 4 + length s) ss)"
  by (induction ss) (simp_all add: encode_string_def)


lemma length_payload_bytes:
  "length (payload_bytes e cmd) = 4 + sum_list (map (\<lambda>s. 4 + length s) cmd)"
  by (simp add: payload_bytes_alt length_encoded_strings)


lemma sum_list_bounds:
  "length ss * 4 \<le> sum_list (map (\<lambda>s. 4 + length s) ss) \<and>
   (\<forall>s \<in> set ss. 4 + length s \<le> sum_list (map (\<lambda>s. 4 + length s) ss))"
  by (induction ss) auto


lemma payload_bytes_bounds:
  "length cmd * 4 + 4 \<le> length (payload_bytes e cmd)"
  "s \<in> set cmd \<Longrightarrow> length s + 8 \<le> length (payload_bytes e cmd)"
  using sum_list_bounds [of cmd] by (auto simp: length_payload_bytes)

lemma parseRequest_payload_bytes:
  assumes "length (payload_bytes e cmd) \<le> k_max_msg"
  shows "parseRequest e (payload_bytes e cmd) = Some cmd"
proof -
  have n: "length cmd \<le> 1023"
    using assms payload_bytes_bounds(1) [where cmd = cmd and e = e] by (simp add: k_max_msg_def)
  have l: "\<forall>s \<in> set cmd. length s < 2 ^ 32"
  proof
    fix s assume "s \<in> set cmd"
    then have "length s + 8 \<le> k_max_msg"
      using assms payload_bytes_bounds(2) [where cmd = cmd and e = e and s = s] by simp
    then show "length s < 2 ^ 32" by (simp add: k_max_msg_def)
  qed
  have u: "unat (of_nat (length cmd) :: u32) = length cmd"
    using n by (simp add: unat_of_nat_u32)
  show ?thesis
    using parseStrings_encoded [OF l, of e "[]" "[]"] n
    by (simp add: parseRequest_def payload_bytes_alt u k_max_msg_def)
qed


lemma parseRequest_SomeD:
  assumes "parseRequest e body = Some cmd"
  shows "body = payload_bytes e cmd" and "length cmd \<le> k_max_msg"
proof -
  from assms obtain nstr cur where r: "readU32 e body = Some (nstr, cur)"
    and n: "unat nstr \<le> k_max_msg" and p: "parseStrings e (unat nstr) cur [] = Some ([], cmd)"
    by (auto simp: parseRequest_def split: option.splits if_splits)
  from parseStrings_SomeD [OF p] have c: "length cmd = unat nstr" "cur = concat (map (encode_string e) cmd)"
    by auto
  show "length cmd \<le> k_max_msg" using n c by simp
  have "of_nat (length cmd) = nstr" using c by simp
  then show "body = payload_bytes e cmd"
    using readU32_SomeD [OF r] c by (simp add: payload_bytes_alt)
qed

lemma estimate_ok_iff:
  "est \<le> k_max_msg \<Longrightarrow>
   estimate_ok est cmd \<longleftrightarrow> est + sum_list (map (\<lambda>s. 4 + length s) cmd) \<le> k_max_msg"
  by (induction cmd arbitrary: est) auto


lemma build_payload_iff:
  "build_payload e cmd = Some body \<longleftrightarrow> body = payload_bytes e cmd \<and> length body \<le> k_max_msg"
  using estimate_ok_iff [of 4 cmd]
  by (auto simp: build_payload_def length_payload_bytes k_max_msg_def)

lemma well_formed_body_iff:
  assumes "length body \<le> k_max_msg"
  shows "well_formed_body e body \<longleftrightarrow> parseRequest e body \<noteq> None"
proof
  assume "well_formed_body e body"
  then obtain cmd where "body = payload_bytes e cmd"
    by (auto simp: well_formed_body_def)
  with assms show "parseRequest e body \<noteq> None"
    using parseRequest_payload_bytes [of e cmd] by simp
next
  assume "parseRequest e body \<noteq> None"
  then obtain cmd where p: "parseRequest e body = Some cmd"
    by blast
  have b: "body = payload_bytes e cmd" and n: "length cmd \<le> k_max_msg"
    using parseRequest_SomeD [OF p] by simp_all
  have "\<forall>s \<in> set cmd. length s < 2 ^ 32"
  proof
    fix s assume "s \<in> set cmd"
    then have "length s + 8 \<le> k_max_msg"
      using assms b payload_bytes_bounds(2) [where cmd = cmd and e = e and s = s] by simp
    then show "length s < 2 ^ 32" by (simp add: k_max_msg_def)
  qed
  moreover have "length cmd < 2 ^ 32"
    using n by (simp add: k_max_msg_def)
  ultimately show "well_formed_body e body"
    using b by (auto simp: well_formed_body_def)
qed

lemma parseRequest_string_bound:
  assumes "parseRequest e body = Some cmd" and "s \<in> set cmd"
  shows "length s + 8 \<le> length body"
  using parseRequest_SomeD(1) [OF assms(1)] payload_bytes_bounds(2) [where cmd = cmd and e = e and s = s] assms(2)
  by simp

section \<open>The command dispatch\<close>

lemma lit_commands [simp]:
  "lit ''get'' \<noteq> lit ''set''" "lit ''get'' \<noteq> lit ''del''" "lit ''set'' \<noteq> lit ''del''"
  "lit ''set'' \<noteq> lit ''get''" "lit ''del'' \<noteq> lit ''get''" "lit ''del'' \<noteq> lit ''set''"
  by (simp_all add: lit_def)

lemma KVStore_data_simps [simp]:
  "KVStore_data (s\<lparr>impl := Some m\<rparr>) = m"
  "KVStore_data KVStore_new = Map.empty"
  by (simp_all add: KVStore_data_def KVStore_new_def)

lemma executeCommand_get:
  "executeCommand store [lit ''get'', k] =
     (store\<lparr>impl := Some (KVStore_data store)\<rparr>,
      (case KVStore_data store k of None \<Rightarrow> RES_NX | Some v \<Rightarrow> 0),
      (case KVStore_data store k of None \<Rightarrow> [] | Some v \<Rightarrow> v))"
  by (simp add: executeCommand_def KVStore_get_def Let_def split: option.splits)

lemma executeCommand_set:
  "executeCommand store [lit ''set'', k, v] =
     (store\<lparr>impl := Some ((KVStore_data store)(k \<mapsto> v))\<rparr>, 0, [])"
  by (simp add: executeCommand_def KVStore_set_def Let_def)

lemma executeCommand_del:
  "executeCommand store [lit ''del'', k] =
     (store\<lparr>impl := Some ((KVStore_data store)(k := None))\<rparr>, 0, [])"
  by (simp add: executeCommand_def KVStore_del_def Let_def)

lemma executeCommand_other:
  assumes "\<not> (length cmd = 2 \<and> cmd ! 0 = lit ''get'')"
    and "\<not> (length cmd = 3 \<and> cmd ! 0 = lit ''set'')"
    and "\<not> (length cmd = 2 \<and> cmd ! 0 = lit ''del'')"
  shows "executeCommand store cmd = (store, RES_ERR, [])"
  using assms by (auto simp: executeCommand_def)

section \<open>Serving the frames of the client\<close>

lemma build_payload_eq:
  "build_payload e cmd =
     (if length (payload_bytes e cmd) \<le> k_max_msg then Some (payload_bytes e cmd) else None)"
  using estimate_ok_iff [of 4 cmd]
  by (simp add: build_payload_def length_payload_bytes k_max_msg_def)

lemma send_command_request_iff:
  "send_command_request e cmd = Some frame \<longleftrightarrow>
   length (payload_bytes e cmd) \<le> k_max_msg \<and> frame = request_frame e (payload_bytes e cmd)"
proof (cases "length (payload_bytes e cmd) \<le> k_max_msg")
  case True
  then have "unat (of_nat (length (payload_bytes e cmd)) :: u32) = length (payload_bytes e cmd)"
    by (simp add: unat_of_nat_u32 k_max_msg_def)
  with True show ?thesis
    by (auto simp: send_command_request_def build_payload_eq)
next
  case False
  then show ?thesis
    by (simp add: send_command_request_def build_payload_eq)
qed

lemma tryOneRequest_empty:
  "incoming c = [] \<Longrightarrow> tryOneRequest e store c = (False, store, c)"
  by (simp add: tryOneRequest_def)

lemma tryOneRequest_client_frame:
  assumes "send_command_request e cmd = Some frame"
    and "incoming c = frame @ rest"
    and "executeCommand store cmd = (store', status, dat)"
  shows "tryOneRequest e store c =
    (True, store', c\<lparr>outgoing := outgoing c @ response_frame e status dat, incoming := rest\<rparr>)"
proof -
  let ?body = "payload_bytes e cmd"
  have l: "length ?body \<le> k_max_msg" and f: "frame = request_frame e ?body"
    using assms(1) send_command_request_iff [of e cmd frame] by simp_all
  have inc: "incoming c = u32_bytes e (of_nat (length ?body)) @ ?body @ rest"
    using assms(2) f by (simp add: request_frame_def)
  have len: "bytes_u32 e (incoming c) = of_nat (length ?body)"
    by (simp add: inc)
  have u: "unat (bytes_u32 e (incoming c)) = length ?body"
    using l by (simp add: len unat_of_nat_u32 k_max_msg_def)
  have a: "4 \<le> length (incoming c)"
    by (simp add: inc)
  have b: "unat (bytes_u32 e (incoming c)) \<le> k_max_msg"
    using l u by simp
  have c: "4 + unat (bytes_u32 e (incoming c)) \<le> length (incoming c)"
    by (simp add: u) (simp add: inc)
  have body: "take (unat (bytes_u32 e (incoming c))) (drop 4 (incoming c)) = ?body"
    by (simp add: u) (simp add: inc)
  have d: "parseRequest e (take (unat (bytes_u32 e (incoming c))) (drop 4 (incoming c))) = Some cmd"
    unfolding body using l by (rule parseRequest_payload_bytes)
  have r: "drop (4 + unat (bytes_u32 e (incoming c))) (incoming c) = rest"
    by (simp add: u) (simp add: inc)
  show ?thesis
    using tryOneRequest_served [OF a b c d assms(3)] by (simp add: r)
qed

lemma length_run_commands: "length (snd (run_commands e store cmds)) = length cmds"
proof (induction cmds arbitrary: store)
  case Nil
  show ?case by simp
next
  case (Cons cmd cmds)
  obtain store' status dat where x: "executeCommand store cmd = (store', status, dat)"
    by (metis prod_cases3)
  show ?case
    using Cons [of store'] by (auto simp: x split: prod.splits)
qed

lemma processRequests_client_frames:
  assumes "list_all2 (\<lambda>cmd frame. send_command_request e cmd = Some frame) cmds frames"
    and "incoming c = concat frames"
  shows "processRequests e store c =
    (fst (run_commands e store cmds),
     c\<lparr>outgoing := outgoing c @ concat (snd (run_commands e store cmds)), incoming := []\<rparr>)"
  using assms
proof (induction cmds frames arbitrary: store c rule: list_all2_induct)
  case Nil
  then have "tryOneRequest e store c = (False, store, c)"
    by (simp add: tryOneRequest_empty)
  then have "processRequests e store c = (store, c)"
    by (rule processRequests_stop)
  with Nil show ?case by simp
next
  case (Cons cmd cmds frame frames)
  obtain store' status dat where x: "executeCommand store cmd = (store', status, dat)"
    by (metis prod_cases3)
  let ?c' = "c\<lparr>outgoing := outgoing c @ response_frame e status dat, incoming := concat frames\<rparr>"
  have t: "tryOneRequest e store c = (True, store', ?c')"
    using Cons.hyps(1) _ x by (rule tryOneRequest_client_frame) (simp add: Cons.prems)
  have "processRequests e store c = processRequests e store' ?c'"
    using t by (rule processRequests_step)
  also have "\<dots> = (fst (run_commands e store' cmds),
      ?c'\<lparr>outgoing := outgoing ?c' @ concat (snd (run_commands e store' cmds)), incoming := []\<rparr>)"
    by (rule Cons.IH) simp
  finally show ?case
    by (simp add: x split: prod.splits)
qed

lemma handleWritable_sent:
  "handleWritable wr c = (c', sent) \<Longrightarrow> sent @ outgoing c' = outgoing c \<and> incoming c' = incoming c"
  by (auto simp: handleWritable_def Let_def bufConsume_drop split: if_splits write_result.splits)

section \<open>Bounds on the stored values and on the responses\<close>

lemma values_bounded_new: "values_bounded KVStore_new"
  by (simp add: values_bounded_def)

lemma executeCommand_bounded:
  assumes "values_bounded store" and "\<forall>s \<in> set cmd. length s + 8 \<le> k_max_msg"
    and "executeCommand store cmd = (store', status, dat)"
  shows "values_bounded store' \<and> length dat + 4 \<le> k_max_msg"
proof -
  consider (get) "length cmd = 2" "cmd ! 0 = lit ''get''"
    | (set) "\<not> (length cmd = 2 \<and> cmd ! 0 = lit ''get'')" "length cmd = 3" "cmd ! 0 = lit ''set''"
    | (del) "\<not> (length cmd = 2 \<and> cmd ! 0 = lit ''get'')" "\<not> (length cmd = 3 \<and> cmd ! 0 = lit ''set'')"
        "length cmd = 2" "cmd ! 0 = lit ''del''"
    | (other) "\<not> (length cmd = 2 \<and> cmd ! 0 = lit ''get'')" "\<not> (length cmd = 3 \<and> cmd ! 0 = lit ''set'')"
        "\<not> (length cmd = 2 \<and> cmd ! 0 = lit ''del'')"
    by blast
  then show ?thesis
  proof cases
    case get
    then show ?thesis
      using assms(1,3)
      by (auto simp: executeCommand_def KVStore_get_def Let_def values_bounded_def k_max_msg_def
          split: option.splits)
  next
    case set
    have "cmd ! 2 \<in> set cmd"
      using set(2) by simp
    then have "length (cmd ! 2) + 8 \<le> k_max_msg"
      using assms(2) by blast
    then show ?thesis
      using set assms(1,3)
      by (auto simp: executeCommand_def KVStore_set_def Let_def values_bounded_def k_max_msg_def
          split: if_splits)
  next
    case del
    then show ?thesis
      using assms(1,3)
      by (auto simp: executeCommand_def KVStore_del_def Let_def values_bounded_def k_max_msg_def
          split: if_splits)
  next
    case other
    then show ?thesis
      using assms(1,3) by (auto simp: executeCommand_def k_max_msg_def)
  qed
qed

lemma tryOneRequest_cases:
  assumes "tryOneRequest e store c = (ok, store', c')"
  shows "(ok \<longrightarrow> (\<exists>cmd status dat.
            unat (bytes_u32 e (incoming c)) \<le> k_max_msg
            \<and> parseRequest e (take (unat (bytes_u32 e (incoming c))) (drop 4 (incoming c))) = Some cmd
            \<and> executeCommand store cmd = (store', status, dat)
            \<and> outgoing c' = outgoing c @ response_frame e status dat))
       \<and> (\<not> ok \<longrightarrow> store' = store \<and> outgoing c' = outgoing c)"
  using assms
  by (auto simp: tryOneRequest_def Let_def appendResponse_eq split: if_splits option.splits prod.splits)

lemma tryOneRequest_bounded:
  assumes "values_bounded store" and "tryOneRequest e store c = (ok, store', c')"
  shows "values_bounded store'
       \<and> (ok \<longrightarrow> (\<exists>status dat. outgoing c' = outgoing c @ response_frame e status dat
                      \<and> length dat + 4 \<le> k_max_msg))
       \<and> (\<not> ok \<longrightarrow> outgoing c' = outgoing c)"
proof (cases ok)
  case False
  then show ?thesis
    using assms tryOneRequest_cases [OF assms(2)] by simp
next
  case True
  let ?body = "take (unat (bytes_u32 e (incoming c))) (drop 4 (incoming c))"
  from True tryOneRequest_cases [OF assms(2)] obtain cmd status dat where
    l: "unat (bytes_u32 e (incoming c)) \<le> k_max_msg"
    and p: "parseRequest e ?body = Some cmd"
    and x: "executeCommand store cmd = (store', status, dat)"
    and o: "outgoing c' = outgoing c @ response_frame e status dat"
    by blast
  have "\<forall>s \<in> set cmd. length s + 8 \<le> k_max_msg"
  proof
    fix s assume "s \<in> set cmd"
    then have "length s + 8 \<le> length ?body"
      using p by (rule parseRequest_string_bound [rotated])
    with l show "length s + 8 \<le> k_max_msg" by simp
  qed
  with assms(1) have "values_bounded store' \<and> length dat + 4 \<le> k_max_msg"
    using x by (rule executeCommand_bounded)
  with True o show ?thesis by blast
qed

lemma server_store_bounded: "server_store e store \<Longrightarrow> values_bounded store"
proof (induction rule: server_store.induct)
  case server_store_new
  show ?case by (rule values_bounded_new)
next
  case (server_store_step store c ok store' c')
  then show ?case
    using tryOneRequest_bounded [of store e c ok store' c'] by simp
qed

lemma response_frame_length_field:
  assumes "length dat + 4 \<le> k_max_msg"
  shows "bytes_u32 e (response_frame e status dat) = 4 + of_nat (length dat)"
    and "unat (bytes_u32 e (response_frame e status dat)) = 4 + length dat"
    and "length (response_frame e status dat) = 4 + (4 + length dat)"
    and "response_length_ok (bytes_u32 e (response_frame e status dat))"
proof -
  show f: "bytes_u32 e (response_frame e status dat) = 4 + of_nat (length dat)"
    by (simp add: response_frame_def)
  have "unat (of_nat (length dat) :: u32) = length dat"
    using assms by (simp add: unat_of_nat_u32 k_max_msg_def)
  then show u: "unat (bytes_u32 e (response_frame e status dat)) = 4 + length dat"
    using assms by (simp add: f unat_word_ariths k_max_msg_def)
  show "length (response_frame e status dat) = 4 + (4 + length dat)"
    by (simp add: response_frame_def)
  show "response_length_ok (bytes_u32 e (response_frame e status dat))"
    using assms by (simp add: response_length_ok_def u)
qed


section \<open>The claims\<close>

subsection \<open>C1: a frame that declares more than the maximum message size\<close>

text \<open>
  C1, as the code has it. When the incoming buffer holds at least the four bytes of a
  length prefix and the declared length is greater than \<open>k_max_msg\<close>, \<open>tryOneRequest\<close>
  sets \<open>want_close\<close> and returns false without touching anything else: no response is
  appended to the outgoing buffer, the store is unchanged, the incoming buffer is left as
  it is (nothing is dropped from it), and the request loop stops there, so no further
  frame is processed.
\<close>

theorem oversized_frame_closes:
  assumes "4 \<le> length (incoming c)" and "k_max_msg < unat (bytes_u32 e (incoming c))"
  shows "tryOneRequest e store c = (False, store, c\<lparr>want_close := True\<rparr>)
       \<and> processRequests e store c = (store, c\<lparr>want_close := True\<rparr>)
       \<and> outgoing (snd (processRequests e store c)) = outgoing c
       \<and> incoming (snd (processRequests e store c)) = incoming c
       \<and> want_close (snd (processRequests e store c))"
  using assms tryOneRequest_oversized [OF assms, of store]
  by (simp add: processRequests_stop)

theorem oversized_frame_closes_witness:
  "4 \<le> length (incoming oversized_example)
   \<and> k_max_msg < unat (bytes_u32 Little (incoming oversized_example))
   \<and> tryOneRequest Little KVStore_new oversized_example =
       (False, KVStore_new, oversized_example\<lparr>want_close := True\<rparr>)
   \<and> processRequests Little KVStore_new oversized_example =
       (KVStore_new, oversized_example\<lparr>want_close := True\<rparr>)
   \<and> outgoing (snd (processRequests Little KVStore_new oversized_example)) = []
   \<and> incoming (snd (processRequests Little KVStore_new oversized_example)) = [137, 19, 0, 0, 1, 2, 3]"
proof -
  have a: "4 \<le> length (incoming oversized_example)"
    by (simp add: oversized_example_def)
  have b: "k_max_msg < unat (bytes_u32 Little (incoming oversized_example))"
    by (simp add: oversized_example_def bytes_u32_def le_u32_def k_max_msg_def)
  show ?thesis
    using a b oversized_frame_closes [OF a b, of KVStore_new]
    by (simp add: oversized_example_def Connection_new_def)
qed

text \<open>
  The claim as it is written fails: the declared length is 5001, the buffer holds seven
  bytes, and after \<open>tryOneRequest\<close> it still holds the same seven bytes, where dropping
  the declared length (with or without the four bytes of the prefix) would empty it.
\<close>

theorem oversized_frame_not_dropped:
  "unat (bytes_u32 Little (incoming oversized_example)) = 5001
   \<and> incoming (snd (snd (tryOneRequest Little KVStore_new oversized_example))) = [137, 19, 0, 0, 1, 2, 3]
   \<and> incoming (snd (snd (tryOneRequest Little KVStore_new oversized_example)))
       \<noteq> bufConsume (incoming oversized_example) (unat (bytes_u32 Little (incoming oversized_example)))
   \<and> incoming (snd (snd (tryOneRequest Little KVStore_new oversized_example)))
       \<noteq> bufConsume (incoming oversized_example) (4 + unat (bytes_u32 Little (incoming oversized_example)))"
proof -
  have len: "bytes_u32 Little (incoming oversized_example) = 5001"
    by (simp add: oversized_example_def bytes_u32_def le_u32_def)
  have t: "tryOneRequest Little KVStore_new oversized_example =
      (False, KVStore_new, oversized_example\<lparr>want_close := True\<rparr>)"
    by (simp add: tryOneRequest_def Let_def len k_max_msg_def) (simp add: oversized_example_def)
  show ?thesis
    by (simp add: t len) (simp add: oversized_example_def bufConsume_def)
qed

subsection \<open>C2: get\<close>

text \<open>
  C2. Dispatching \<^verbatim>\<open>["get", k]\<close> answers with status 0 (OK) and the value mapped to \<open>k\<close>
  as payload when the store maps \<open>k\<close>, and with status \<open>RES_NX\<close>, which is 1, and an
  empty payload when it does not; the contents of the store stay as they are. After
  dispatching \<^verbatim>\<open>["set", k, v]\<close>, dispatching \<^verbatim>\<open>["get", k]\<close> answers with status 0 and
  payload exactly \<open>v\<close>.
\<close>

theorem get_returns_value:
  "(KVStore_data store k = Some v \<longrightarrow>
      snd (executeCommand store [lit ''get'', k]) = (RES_OK, v))
   \<and> (KVStore_data store k = None \<longrightarrow>
      snd (executeCommand store [lit ''get'', k]) = (RES_NX, []))
   \<and> KVStore_data (fst (executeCommand store [lit ''get'', k])) = KVStore_data store
   \<and> snd (executeCommand (fst (executeCommand store [lit ''set'', k, w])) [lit ''get'', k]) = (RES_OK, w)
   \<and> RES_OK = 0 \<and> RES_NX = 1"
  by (simp add: executeCommand_get executeCommand_set RES_OK_def RES_NX_def)

theorem get_returns_value_witness:
  "KVStore_data (KVStore_set KVStore_new (lit ''foo'') (lit ''bar'')) (lit ''foo'') = Some (lit ''bar'')
   \<and> snd (executeCommand (KVStore_set KVStore_new (lit ''foo'') (lit ''bar'')) [lit ''get'', lit ''foo''])
       = (RES_OK, lit ''bar'')
   \<and> KVStore_data KVStore_new (lit ''foo'') = None
   \<and> snd (executeCommand KVStore_new [lit ''get'', lit ''foo'']) = (RES_NX, [])"
  using get_returns_value [of "KVStore_set KVStore_new (lit ''foo'') (lit ''bar'')" "lit ''foo''" "lit ''bar''"]
    get_returns_value [of KVStore_new "lit ''foo''"]
  by (simp add: KVStore_set_def Let_def)

subsection \<open>C3: del\<close>

text \<open>
  C3. Dispatching \<^verbatim>\<open>["del", k]\<close> answers with status 0 (success) and an empty payload
  whether or not the store maps \<open>k\<close>; afterwards the store does not map \<open>k\<close>, and
  dispatching \<^verbatim>\<open>["get", k]\<close> answers with \<open>RES_NX\<close> and an empty payload. The store's own
  \<open>del\<close> reports whether \<open>k\<close> was mapped, and the dispatch keeps the store that
  \<open>del\<close> returns and drops that report.
\<close>

theorem del_always_succeeds:
  "snd (executeCommand store [lit ''del'', k]) = (RES_OK, [])
   \<and> KVStore_data (fst (executeCommand store [lit ''del'', k])) k = None
   \<and> snd (executeCommand (fst (executeCommand store [lit ''del'', k])) [lit ''get'', k]) = (RES_NX, [])
   \<and> snd (KVStore_del store k) = (KVStore_data store k \<noteq> None)
   \<and> fst (executeCommand store [lit ''del'', k]) = fst (KVStore_del store k)"
  by (simp add: executeCommand_get executeCommand_del RES_OK_def KVStore_del_def Let_def)

subsection \<open>C4: anything else is answered with the generic error\<close>

text \<open>
  C4. When the incoming buffer holds a complete frame whose body parses to a command
  that is none of \<^verbatim>\<open>["get", key]\<close>, \<^verbatim>\<open>["set", key, value]\<close> and \<^verbatim>\<open>["del", key]\<close> (another
  verb or another number of strings), \<open>tryOneRequest\<close> appends a response with status
  \<open>RES_ERR\<close>, the greatest 32-bit value, and an empty payload, leaves the store as it
  is, does not touch \<open>want_close\<close>, removes the frame from the incoming buffer and
  returns true, so that the request loop goes on with what follows in the buffer.
\<close>

theorem unknown_command_error:
  assumes "4 \<le> length (incoming c)"
    and "unat (bytes_u32 e (incoming c)) \<le> k_max_msg"
    and "4 + unat (bytes_u32 e (incoming c)) \<le> length (incoming c)"
    and "parseRequest e (take (unat (bytes_u32 e (incoming c))) (drop 4 (incoming c))) = Some cmd"
    and "\<not> (length cmd = 2 \<and> cmd ! 0 = lit ''get'')"
    and "\<not> (length cmd = 3 \<and> cmd ! 0 = lit ''set'')"
    and "\<not> (length cmd = 2 \<and> cmd ! 0 = lit ''del'')"
  shows "tryOneRequest e store c =
      (True, store,
       c\<lparr>outgoing := outgoing c @ response_frame e RES_ERR [],
         incoming := drop (4 + unat (bytes_u32 e (incoming c))) (incoming c)\<rparr>)
    \<and> response_frame e RES_ERR [] = u32_bytes e 4 @ u32_bytes e RES_ERR
    \<and> unat RES_ERR = 2 ^ 32 - 1
    \<and> want_close (snd (snd (tryOneRequest e store c))) = want_close c
    \<and> processRequests e store c =
      processRequests e store
       (c\<lparr>outgoing := outgoing c @ response_frame e RES_ERR [],
          incoming := drop (4 + unat (bytes_u32 e (incoming c))) (incoming c)\<rparr>)"
proof -
  have x: "executeCommand store cmd = (store, RES_ERR, [])"
    using assms(5-7) by (rule executeCommand_other)
  have t: "tryOneRequest e store c =
      (True, store,
       c\<lparr>outgoing := outgoing c @ response_frame e RES_ERR [],
         incoming := drop (4 + unat (bytes_u32 e (incoming c))) (incoming c)\<rparr>)"
    using assms(1-4) x by (rule tryOneRequest_served)
  show ?thesis
    using processRequests_step [OF t]
    by (simp add: t response_frame_def RES_ERR_def unsigned_minus_1_eq_mask mask_eq_exp_minus_1)
qed

theorem unknown_command_error_witness:
  "parseRequest Little (take (unat (bytes_u32 Little (incoming bad_arity_example))) (drop 4 (incoming bad_arity_example)))
     = Some [lit ''set'', lit ''a'']
   \<and> tryOneRequest Little KVStore_new bad_arity_example =
      (True, KVStore_new,
       bad_arity_example\<lparr>outgoing := [4, 0, 0, 0, 255, 255, 255, 255], incoming := []\<rparr>)"
proof -
  have len: "bytes_u32 Little (incoming bad_arity_example) = 16"
    by (simp add: bad_arity_example_def bytes_u32_def le_u32_def)
  have a: "4 \<le> length (incoming bad_arity_example)"
    by (simp add: bad_arity_example_def)
  have b: "unat (bytes_u32 Little (incoming bad_arity_example)) \<le> k_max_msg"
    by (simp add: len k_max_msg_def)
  have c: "4 + unat (bytes_u32 Little (incoming bad_arity_example)) \<le> length (incoming bad_arity_example)"
    by (simp add: len) (simp add: bad_arity_example_def)
  have body: "take (unat (bytes_u32 Little (incoming bad_arity_example))) (drop 4 (incoming bad_arity_example))
      = [2, 0, 0, 0, 3, 0, 0, 0, 115, 101, 116, 1, 0, 0, 0, 97]"
    by (simp add: len) (simp add: bad_arity_example_def)
  have p: "parseRequest Little [2, 0, 0, 0, 3, 0, 0, 0, 115, 101, 116, 1, 0, 0, 0, 97] = Some [lit ''set'', lit ''a'']"
    by code_simp
  have d: "parseRequest Little (take (unat (bytes_u32 Little (incoming bad_arity_example))) (drop 4 (incoming bad_arity_example)))
     = Some [lit ''set'', lit ''a'']"
    unfolding body by (rule p)
  have f: "\<not> (length [lit ''set'', lit ''a''] = 2 \<and> [lit ''set'', lit ''a''] ! 0 = lit ''get'')"
    by simp
  have g: "\<not> (length [lit ''set'', lit ''a''] = 3 \<and> [lit ''set'', lit ''a''] ! 0 = lit ''set'')"
    by simp
  have h: "\<not> (length [lit ''set'', lit ''a''] = 2 \<and> [lit ''set'', lit ''a''] ! 0 = lit ''del'')"
    by simp
  have r: "drop (4 + unat (bytes_u32 Little (incoming bad_arity_example))) (incoming bad_arity_example) = []"
    by (simp add: len) (simp add: bad_arity_example_def)
  have o: "outgoing bad_arity_example @ response_frame Little RES_ERR [] = [4, 0, 0, 0, 255, 255, 255, 255]"
    by code_simp
  show ?thesis
    using d unknown_command_error [OF a b c d f g h, of KVStore_new]
    by (simp add: r o)
qed

subsection \<open>C5: pipelined requests are answered in one pass, in order\<close>

text \<open>
  C5. Let a successful read leave in the incoming buffer exactly N request frames, each a
  frame that the client's \<open>send_command\<close> writes for some command (these are the well
  formed frames within the size limit). Then the request loop of that one call of
  \<open>handleReadable\<close> empties the incoming buffer and appends to the outgoing buffer
  exactly N response frames, the response to each request in the order of the requests,
  each computed on the store left by the request before it. When \<open>handleReadable\<close>
  returns, these frames are what has been written to the socket followed by what is
  left in the outgoing buffer.
\<close>

theorem pipelined_requests_in_order:
  assumes "list_all2 (\<lambda>cmd frame. send_command_request e cmd = Some frame) cmds frames"
    and "dat \<noteq> []"
    and "incoming c @ dat = concat frames"
  shows "processRequests e store (c\<lparr>incoming := bufAppend (incoming c) dat\<rparr>) =
      (fst (run_commands e store cmds),
       c\<lparr>incoming := [], outgoing := outgoing c @ concat (snd (run_commands e store cmds))\<rparr>)
    \<and> length (snd (run_commands e store cmds)) = length frames
    \<and> fst (handleReadable e store (ReadOk dat) wr c) = fst (run_commands e store cmds)
    \<and> snd (snd (handleReadable e store (ReadOk dat) wr c))
        @ outgoing (fst (snd (handleReadable e store (ReadOk dat) wr c)))
       = outgoing c @ concat (snd (run_commands e store cmds))
    \<and> incoming (fst (snd (handleReadable e store (ReadOk dat) wr c))) = []"
proof -
  let ?c1 = "c\<lparr>incoming := bufAppend (incoming c) dat\<rparr>"
  let ?out = "outgoing c @ concat (snd (run_commands e store cmds))"
  let ?c2 = "c\<lparr>incoming := [], outgoing := ?out\<rparr>"
  have p: "processRequests e store ?c1 = (fst (run_commands e store cmds), ?c2)"
    using processRequests_client_frames [OF assms(1), of ?c1 store] assms(3)
    by (simp add: bufAppend_append)
  have n: "length (snd (run_commands e store cmds)) = length frames"
    using assms(1) by (simp add: length_run_commands list_all2_lengthD)
  obtain c4 sent where w: "handleWritable wr (?c2\<lparr>want_read := False, want_write := True\<rparr>) = (c4, sent)"
    by (metis surj_pair)
  have s: "sent @ outgoing c4 = ?out \<and> incoming c4 = []"
    using handleWritable_sent [OF w] by simp
  have h: "handleReadable e store (ReadOk dat) wr c =
      (if ?out \<noteq> [] then (fst (run_commands e store cmds), c4, sent)
       else (fst (run_commands e store cmds), ?c2, []))"
    using assms(2) by (simp add: handleReadable_def p w)
  show ?thesis
    using p n s by (simp add: h)
qed

theorem pipelined_requests_in_order_witness:
  "send_command_request Little [lit ''set'', lit ''a'', lit ''b''] =
     Some [21, 0, 0, 0, 3, 0, 0, 0, 3, 0, 0, 0, 115, 101, 116, 1, 0, 0, 0, 97, 1, 0, 0, 0, 98]
   \<and> send_command_request Little [lit ''get'', lit ''a''] =
     Some [16, 0, 0, 0, 2, 0, 0, 0, 3, 0, 0, 0, 103, 101, 116, 1, 0, 0, 0, 97]
   \<and> two_requests_example \<noteq> []
   \<and> snd (snd (handleReadable Little KVStore_new (ReadOk two_requests_example) (WriteOk 3) (Connection_new 5)))
        @ outgoing (fst (snd (handleReadable Little KVStore_new (ReadOk two_requests_example) (WriteOk 3) (Connection_new 5))))
       = [4, 0, 0, 0, 0, 0, 0, 0, 5, 0, 0, 0, 0, 0, 0, 0, 98]
   \<and> incoming (fst (snd (handleReadable Little KVStore_new (ReadOk two_requests_example) (WriteOk 3) (Connection_new 5)))) = []"
proof -
  let ?cmds = "[[lit ''set'', lit ''a'', lit ''b''], [lit ''get'', lit ''a'']]"
  let ?frames = "[[21, 0, 0, 0, 3, 0, 0, 0, 3, 0, 0, 0, 115, 101, 116, 1, 0, 0, 0, 97, 1, 0, 0, 0, 98],
      [16, 0, 0, 0, 2, 0, 0, 0, 3, 0, 0, 0, 103, 101, 116, 1, 0, 0, 0, 97 :: byte]]"
  have f1: "send_command_request Little [lit ''set'', lit ''a'', lit ''b''] =
     Some [21, 0, 0, 0, 3, 0, 0, 0, 3, 0, 0, 0, 115, 101, 116, 1, 0, 0, 0, 97, 1, 0, 0, 0, 98]"
    by code_simp
  have f2: "send_command_request Little [lit ''get'', lit ''a''] =
     Some [16, 0, 0, 0, 2, 0, 0, 0, 3, 0, 0, 0, 103, 101, 116, 1, 0, 0, 0, 97]"
    by code_simp
  have la: "list_all2 (\<lambda>cmd frame. send_command_request Little cmd = Some frame) ?cmds ?frames"
    using f1 f2 by simp
  have d: "two_requests_example \<noteq> []"
    by (simp add: two_requests_example_def)
  have i: "incoming (Connection_new 5) @ two_requests_example = concat ?frames"
    by (simp add: Connection_new_def two_requests_example_def)
  have r: "concat (snd (run_commands Little KVStore_new ?cmds)) =
      [4, 0, 0, 0, 0, 0, 0, 0, 5, 0, 0, 0, 0, 0, 0, 0, 98]"
    by code_simp
  have o: "outgoing (Connection_new 5) = []"
    by (simp add: Connection_new_def)
  show ?thesis
    using f1 f2 d pipelined_requests_in_order [OF la d i, of KVStore_new "WriteOk 3"]
    by (simp add: r o del: run_commands.simps)
qed

subsection \<open>C6: encoding and parsing are inverse to each other\<close>

text \<open>
  C6. When the client's \<open>build_payload\<close> accepts a list of strings (its encoding fits the
  size limit), the server's \<open>parseRequest\<close> gives back exactly that list from the bytes
  built; and when \<open>parseRequest\<close> accepts a body that fits the limit, \<open>build_payload\<close>
  on the strings it found builds exactly the bytes of that body.
\<close>

theorem request_roundtrip:
  "(build_payload e cmd = Some body \<longrightarrow> parseRequest e body = Some cmd)
   \<and> (length body \<le> k_max_msg \<and> parseRequest e body = Some cmd \<longrightarrow> build_payload e cmd = Some body)"
proof (intro conjI impI)
  assume "build_payload e cmd = Some body"
  then have "body = payload_bytes e cmd \<and> length body \<le> k_max_msg"
    using build_payload_iff [of e cmd body] by blast
  then show "parseRequest e body = Some cmd"
    using parseRequest_payload_bytes [of e cmd] by blast
next
  assume a: "length body \<le> k_max_msg \<and> parseRequest e body = Some cmd"
  then have "body = payload_bytes e cmd"
    by (intro parseRequest_SomeD(1)) simp
  with a show "build_payload e cmd = Some body"
    using build_payload_iff [of e cmd body] by blast
qed

theorem request_roundtrip_witness:
  "build_payload Little [lit ''get'', lit ''k''] =
     Some [2, 0, 0, 0, 3, 0, 0, 0, 103, 101, 116, 1, 0, 0, 0, 107]
   \<and> parseRequest Little [2, 0, 0, 0, 3, 0, 0, 0, 103, 101, 116, 1, 0, 0, 0, 107] =
     Some [lit ''get'', lit ''k'']
   \<and> length [2, 0, 0, 0, 3, 0, 0, 0, 103, 101, 116, 1, 0, 0, 0, 107 :: byte] \<le> k_max_msg"
proof -
  have b: "build_payload Little [lit ''get'', lit ''k''] =
     Some [2, 0, 0, 0, 3, 0, 0, 0, 103, 101, 116, 1, 0, 0, 0, 107]"
    by (simp add: build_payload_def payload_bytes_def u32_bytes_def lit_def k_max_msg_def)
  have l: "length [2, 0, 0, 0, 3, 0, 0, 0, 103, 101, 116, 1, 0, 0, 0, 107 :: byte] \<le> k_max_msg"
    by (simp add: k_max_msg_def)
  show ?thesis
    using b l request_roundtrip [of Little "[lit ''get'', lit ''k'']"
        "[2, 0, 0, 0, 3, 0, 0, 0, 103, 101, 116, 1, 0, 0, 0, 107]"]
    by simp
qed

subsection \<open>C7: a complete frame whose body is malformed\<close>

text \<open>
  C7. When the incoming buffer holds a complete frame (declared length at most
  \<open>k_max_msg\<close>) whose body is not well formed, that is, not exactly a string count
  followed by exactly that many length-prefixed strings with nothing after them,
  \<open>tryOneRequest\<close> sets \<open>want_close\<close>, removes the frame (the four bytes of the prefix
  and the declared length) from the incoming buffer, appends nothing to the outgoing
  buffer, leaves the store alone and returns false, which ends the request loop.
\<close>

theorem malformed_body_closes:
  assumes "4 \<le> length (incoming c)"
    and "unat (bytes_u32 e (incoming c)) \<le> k_max_msg"
    and "4 + unat (bytes_u32 e (incoming c)) \<le> length (incoming c)"
    and "\<not> well_formed_body e (take (unat (bytes_u32 e (incoming c))) (drop 4 (incoming c)))"
  shows "tryOneRequest e store c =
      (False, store, c\<lparr>want_close := True,
         incoming := drop (4 + unat (bytes_u32 e (incoming c))) (incoming c)\<rparr>)
    \<and> processRequests e store c =
      (store, c\<lparr>want_close := True,
         incoming := drop (4 + unat (bytes_u32 e (incoming c))) (incoming c)\<rparr>)
    \<and> outgoing (snd (processRequests e store c)) = outgoing c
    \<and> want_close (snd (processRequests e store c))"
proof -
  let ?body = "take (unat (bytes_u32 e (incoming c))) (drop 4 (incoming c))"
  have "length ?body \<le> k_max_msg"
    using assms(2) by simp
  then have "parseRequest e ?body = None"
    using assms(4) well_formed_body_iff [of ?body e] by blast
  then have t: "tryOneRequest e store c =
      (False, store, c\<lparr>want_close := True,
         incoming := drop (4 + unat (bytes_u32 e (incoming c))) (incoming c)\<rparr>)"
    using assms(1-3) by (rule tryOneRequest_malformed [rotated 3])
  then show ?thesis
    by (simp add: processRequests_stop)
qed

theorem malformed_body_closes_witness:
  "4 \<le> length (incoming malformed_example)
   \<and> unat (bytes_u32 Little (incoming malformed_example)) \<le> k_max_msg
   \<and> 4 + unat (bytes_u32 Little (incoming malformed_example)) \<le> length (incoming malformed_example)
   \<and> \<not> well_formed_body Little [0, 0, 0, 0, 7]
   \<and> tryOneRequest Little KVStore_new malformed_example =
       (False, KVStore_new, malformed_example\<lparr>want_close := True, incoming := [1, 2]\<rparr>)
   \<and> outgoing (snd (processRequests Little KVStore_new malformed_example)) = []"
proof -
  have len: "bytes_u32 Little (incoming malformed_example) = 5"
    by (simp add: malformed_example_def bytes_u32_def le_u32_def)
  have a: "4 \<le> length (incoming malformed_example)"
    by (simp add: malformed_example_def)
  have b: "unat (bytes_u32 Little (incoming malformed_example)) \<le> k_max_msg"
    by (simp add: len k_max_msg_def)
  have c: "4 + unat (bytes_u32 Little (incoming malformed_example)) \<le> length (incoming malformed_example)"
    by (simp add: len) (simp add: malformed_example_def)
  have body: "take (unat (bytes_u32 Little (incoming malformed_example))) (drop 4 (incoming malformed_example))
      = [0, 0, 0, 0, 7]"
    by (simp add: len) (simp add: malformed_example_def)
  have p: "parseRequest Little [0, 0, 0, 0, 7] = None"
    by (simp add: parseRequest_def readU32_def bytes_u32_def le_u32_def k_max_msg_def)
  have d: "\<not> well_formed_body Little [0, 0, 0, 0, 7]"
    using well_formed_body_iff [of "[0, 0, 0, 0, 7]" Little] p by (simp add: k_max_msg_def)
  have d': "\<not> well_formed_body Little
      (take (unat (bytes_u32 Little (incoming malformed_example))) (drop 4 (incoming malformed_example)))"
    unfolding body by (rule d)
  have r: "drop (4 + unat (bytes_u32 Little (incoming malformed_example))) (incoming malformed_example) = [1, 2]"
    by (simp add: len) (simp add: malformed_example_def)
  show ?thesis
    using a b c d malformed_body_closes [OF a b c d', of KVStore_new]
    by (simp add: r) (simp add: malformed_example_def Connection_new_def)
qed

subsection \<open>C8: one bound for the frame length, the string count and the string lengths\<close>

text \<open>
  C8. The bound \<open>k_max_msg\<close> is 4096, and it limits three things. A frame whose declared
  length is greater is rejected: \<open>tryOneRequest\<close> sets \<open>want_close\<close> and returns false. A
  body whose declared string count is greater fails to parse. And in every request
  that \<open>tryOneRequest\<close> serves, and more generally in every body of at most \<open>k_max_msg\<close>
  bytes that parses, no string is longer than \<open>k_max_msg\<close>.
\<close>

theorem max_message_bound:
  "k_max_msg = 4096
   \<and> (4 \<le> length (incoming c) \<and> k_max_msg < unat (bytes_u32 e (incoming c)) \<longrightarrow>
        tryOneRequest e store c = (False, store, c\<lparr>want_close := True\<rparr>))
   \<and> (4 \<le> length body \<and> k_max_msg < unat (bytes_u32 e body) \<longrightarrow> parseRequest e body = None)
   \<and> (length body \<le> k_max_msg \<and> parseRequest e body = Some cmd \<longrightarrow>
        (\<forall>s \<in> set cmd. length s \<le> k_max_msg))
   \<and> (tryOneRequest e store c = (True, store', c') \<longrightarrow>
        (\<exists>cmd. parseRequest e (take (unat (bytes_u32 e (incoming c))) (drop 4 (incoming c))) = Some cmd
           \<and> (\<forall>s \<in> set cmd. length s \<le> k_max_msg)))"
proof (intro conjI impI)
  show "k_max_msg = 4096"
    by (simp add: k_max_msg_def)
next
  assume "4 \<le> length (incoming c) \<and> k_max_msg < unat (bytes_u32 e (incoming c))"
  then show "tryOneRequest e store c = (False, store, c\<lparr>want_close := True\<rparr>)"
    by (simp add: tryOneRequest_oversized)
next
  assume "4 \<le> length body \<and> k_max_msg < unat (bytes_u32 e body)"
  then show "parseRequest e body = None"
    by (simp add: parseRequest_def readU32_def)
next
  assume a: "length body \<le> k_max_msg \<and> parseRequest e body = Some cmd"
  show "\<forall>s \<in> set cmd. length s \<le> k_max_msg"
  proof
    fix s assume "s \<in> set cmd"
    then have "length s + 8 \<le> length body"
      using a parseRequest_string_bound [of e body cmd s] by simp
    with a show "length s \<le> k_max_msg" by simp
  qed
next
  assume t: "tryOneRequest e store c = (True, store', c')"
  let ?body = "take (unat (bytes_u32 e (incoming c))) (drop 4 (incoming c))"
  from t obtain cmd where p: "parseRequest e ?body = Some cmd"
    and l: "unat (bytes_u32 e (incoming c)) \<le> k_max_msg"
    by (auto simp: tryOneRequest_def Let_def split: if_splits option.splits prod.splits)
  have "\<forall>s \<in> set cmd. length s \<le> k_max_msg"
  proof
    fix s assume "s \<in> set cmd"
    then have "length s + 8 \<le> length ?body"
      using p parseRequest_string_bound [of e ?body cmd s] by simp
    with l show "length s \<le> k_max_msg" by simp
  qed
  with p show "\<exists>cmd. parseRequest e ?body = Some cmd \<and> (\<forall>s \<in> set cmd. length s \<le> k_max_msg)"
    by blast
qed

theorem max_message_bound_witness:
  "4 \<le> length (incoming oversized_example)
   \<and> k_max_msg < unat (bytes_u32 Little (incoming oversized_example))
   \<and> tryOneRequest Little KVStore_new oversized_example =
       (False, KVStore_new, oversized_example\<lparr>want_close := True\<rparr>)
   \<and> k_max_msg < unat (bytes_u32 Little [1, 16, 0, 0])
   \<and> parseRequest Little [1, 16, 0, 0] = None
   \<and> parseRequest Little [2, 0, 0, 0, 3, 0, 0, 0, 115, 101, 116, 1, 0, 0, 0, 97] = Some [lit ''set'', lit ''a'']
   \<and> length (lit ''set'') \<le> k_max_msg \<and> length (lit ''a'') \<le> k_max_msg
   \<and> fst (tryOneRequest Little KVStore_new bad_arity_example)"
proof -
  have a: "4 \<le> length (incoming oversized_example)
      \<and> k_max_msg < unat (bytes_u32 Little (incoming oversized_example))"
    by (simp add: oversized_example_def bytes_u32_def le_u32_def k_max_msg_def)
  have b: "4 \<le> length [1, 16, 0, 0 :: byte] \<and> k_max_msg < unat (bytes_u32 Little [1, 16, 0, 0])"
    by (simp add: bytes_u32_def le_u32_def k_max_msg_def)
  have c: "length [2, 0, 0, 0, 3, 0, 0, 0, 115, 101, 116, 1, 0, 0, 0, 97 :: byte] \<le> k_max_msg
      \<and> parseRequest Little [2, 0, 0, 0, 3, 0, 0, 0, 115, 101, 116, 1, 0, 0, 0, 97] = Some [lit ''set'', lit ''a'']"
    by code_simp
  have d0: "fst (tryOneRequest Little KVStore_new bad_arity_example)"
    by code_simp
  have d: "tryOneRequest Little KVStore_new bad_arity_example =
      (True, fst (snd (tryOneRequest Little KVStore_new bad_arity_example)),
       snd (snd (tryOneRequest Little KVStore_new bad_arity_example)))"
    using d0 by (simp add: prod_eq_iff)
  show ?thesis
    using a b c d0 d
      max_message_bound [of oversized_example Little KVStore_new "[1, 16, 0, 0]" "[]"]
      max_message_bound [of bad_arity_example Little KVStore_new
        "[2, 0, 0, 0, 3, 0, 0, 0, 115, 101, 116, 1, 0, 0, 0, 97]" "[lit ''set'', lit ''a'']"
        "fst (snd (tryOneRequest Little KVStore_new bad_arity_example))"
        "snd (snd (tryOneRequest Little KVStore_new bad_arity_example))"]
    by simp
qed

subsection \<open>C9: the interest flags exclude each other\<close>

text \<open>
  C9. A connection is constructed with \<open>want_read\<close> set and \<open>want_write\<close> clear, so the
  two flags are not both set; and whatever the read and the write return, and whether or
  not the connection is closing, \<open>handleReadable\<close> and \<open>handleWritable\<close> leave a
  connection whose flags are not both set in a state where they are not both set.
\<close>

theorem interest_flags_exclusive:
  "flags_exclusive (Connection_new f)
   \<and> want_read (Connection_new f) \<and> \<not> want_write (Connection_new f)
   \<and> (flags_exclusive c \<longrightarrow> flags_exclusive (fst (snd (handleReadable e store rd wr c))))
   \<and> (flags_exclusive c \<longrightarrow> flags_exclusive (fst (handleWritable wr c)))"
  using handleReadable_exclusive [of c e store rd wr] handleWritable_exclusive [of c wr]
  by (simp add: Connection_new_def flags_exclusive_def)

theorem interest_flags_exclusive_witness:
  "flags_exclusive (Connection_new 5)
   \<and> flags_exclusive (fst (snd (handleReadable Little KVStore_new (ReadOk [0, 0, 0, 0]) (WriteOk 3) (Connection_new 5))))
   \<and> flags_exclusive (fst (handleWritable (WriteOk 3) (Connection_new 5)))"
  using interest_flags_exclusive [of 5 "Connection_new 5" Little KVStore_new "ReadOk [0, 0, 0, 0]" "WriteOk 3"]
  by simp

subsection \<open>C10: the length field of every response\<close>

text \<open>
  C10. In every store the server can reach, each value is at most 4092 bytes long, since
  it came in a request body of at most \<open>k_max_msg\<close> bytes. So whenever \<open>tryOneRequest\<close>
  appends a response (it returns true), what it appends is one response frame whose
  payload is at most 4092 bytes, whose length field is exactly 4 plus the length of the
  payload, computed without wrap-around, and at most \<open>k_max_msg\<close>; the frame is four
  bytes longer than its length field says, and the check of the client's \<open>send_command\<close>
  on the length field accepts it. When \<open>tryOneRequest\<close> returns false it appends nothing.
\<close>

theorem response_length_valid:
  assumes "server_store e store" and "tryOneRequest e store c = (ok, store', c')"
  shows "(ok \<longrightarrow> (\<exists>status dat.
            outgoing c' = outgoing c @ response_frame e status dat
            \<and> length dat \<le> 4092
            \<and> bytes_u32 e (response_frame e status dat) = 4 + of_nat (length dat)
            \<and> unat (bytes_u32 e (response_frame e status dat)) = 4 + length dat
            \<and> unat (bytes_u32 e (response_frame e status dat)) \<le> k_max_msg
            \<and> length (response_frame e status dat) = 4 + unat (bytes_u32 e (response_frame e status dat))
            \<and> response_length_ok (bytes_u32 e (response_frame e status dat))))
       \<and> (\<not> ok \<longrightarrow> outgoing c' = outgoing c)
       \<and> server_store e store'"
proof -
  have b: "values_bounded store"
    using assms(1) by (rule server_store_bounded)
  note t = tryOneRequest_bounded [OF b assms(2)]
  have s: "server_store e store'"
    using assms by (rule server_store_step)
  show ?thesis
  proof (cases ok)
    case False
    with t s show ?thesis by simp
  next
    case True
    with t obtain status dat where o: "outgoing c' = outgoing c @ response_frame e status dat"
      and l: "length dat + 4 \<le> k_max_msg"
      by blast
    have "length dat \<le> 4092"
      using l by (simp add: k_max_msg_def)
    moreover have "unat (bytes_u32 e (response_frame e status dat)) \<le> k_max_msg"
      using l by (simp add: response_frame_length_field(2) [OF l])
    ultimately show ?thesis
      using True o s response_frame_length_field [OF l, of e status]
      by (intro conjI impI exI [of _ status] exI [of _ dat]) simp_all
  qed
qed

theorem response_length_valid_witness:
  "server_store Little (fst (snd (tryOneRequest Little KVStore_new set_request_example)))
   \<and> fst (tryOneRequest Little (fst (snd (tryOneRequest Little KVStore_new set_request_example)))
          get_request_example)
   \<and> outgoing (snd (snd (tryOneRequest Little
          (fst (snd (tryOneRequest Little KVStore_new set_request_example))) get_request_example)))
       = [5, 0, 0, 0, 0, 0, 0, 0, 98]
   \<and> (\<exists>status dat.
          outgoing (snd (snd (tryOneRequest Little
            (fst (snd (tryOneRequest Little KVStore_new set_request_example))) get_request_example)))
            = outgoing get_request_example @ response_frame Little status dat
          \<and> length dat \<le> 4092
          \<and> unat (bytes_u32 Little (response_frame Little status dat)) = 4 + length dat
          \<and> unat (bytes_u32 Little (response_frame Little status dat)) \<le> k_max_msg
          \<and> response_length_ok (bytes_u32 Little (response_frame Little status dat)))"
proof -
  let ?store1 = "fst (snd (tryOneRequest Little KVStore_new set_request_example))"
  let ?r = "tryOneRequest Little ?store1 get_request_example"
  have s0: "server_store Little KVStore_new"
    by (rule server_store_new)
  have "tryOneRequest Little KVStore_new set_request_example =
      (fst (tryOneRequest Little KVStore_new set_request_example), ?store1,
       snd (snd (tryOneRequest Little KVStore_new set_request_example)))"
    by simp
  with s0 have s1: "server_store Little ?store1"
    by (rule server_store_step)
  have ok: "fst ?r"
    by code_simp
  have t: "?r = (True, fst (snd ?r), snd (snd ?r))"
    using ok by (simp add: prod_eq_iff)
  have o: "outgoing (snd (snd ?r)) = [5, 0, 0, 0, 0, 0, 0, 0, 98]"
    by code_simp
  show ?thesis
    using s1 ok o response_length_valid [OF s1 t]
    by (simp only: simp_thms) blast
qed

end
